theory Spec2Isabelle
  imports Main "HOL-Library.Word" "HOL-Library.Signed_Division"
begin

section \<open>Bytes, C strings and memory blocks\<close>

text \<open>
  The program works on \<open>char\<close> and \<open>uint8_t\<close> buffers. A byte is an 8-bit word; where
  the source compares or increments a plain \<open>char\<close>, the byte is read as signed
  (\<open>word_sle\<close>, \<open>sint\<close>), as on the x86-64 System V ABI, and \<open>+ 1\<close> wraps from 127 to -128.

  The memory a \<open>char *\<close> points to is the list of bytes from the pointer on. The C string
  at that pointer is the part before the first NUL byte; the end of the list counts as
  a terminator.
\<close>

type_synonym byte = "8 word"

definition bytes_of :: "string \<Rightarrow> byte list" where
  "bytes_of s = map of_char s"

definition cstring :: "byte list \<Rightarrow> byte list" where
  "cstring m = takeWhile (\<lambda>b. b \<noteq> 0) m"

definition strlen :: "byte list \<Rightarrow> nat" where
  "strlen m = length (cstring m)"

text \<open>\<open>strcmp(a, b) == 0\<close>.\<close>

definition streq :: "byte list \<Rightarrow> byte list \<Rightarrow> bool" where
  "streq a b = (cstring a = cstring b)"

text \<open>
  \<open>memcpy(dst + off, src, n)\<close> on a destination block \<open>dst\<close>. A copy that would leave
  either block is undefined behaviour in C and \<open>None\<close> here.
\<close>

definition memcpy :: "byte list \<Rightarrow> nat \<Rightarrow> byte list \<Rightarrow> nat \<Rightarrow> byte list option" where
  "memcpy dst off src n =
     (if off + n \<le> length dst \<and> n \<le> length src
      then Some (take off dst @ take n src @ drop (off + n) dst)
      else None)"

section \<open>Salt construction and key derivation (\<open>derive_password\<close>)\<close>

text \<open>
  Lines 32 to 40 of \<open>derive_password\<close>: the three fields are copied, each with its
  terminator, into the block that \<open>malloc(salt_len + 1)\<close> returned; each copy starts at
  \<open>salt + strlen(salt)\<close>, that is on the terminator of the previous one. \<open>block\<close> is the
  fresh block with whatever it contains; the salt handed to scrypt is its first
  \<open>salt_len\<close> bytes.
\<close>

definition salt_len :: "byte list \<Rightarrow> byte list \<Rightarrow> byte list \<Rightarrow> nat" where
  "salt_len domain username passno = strlen domain + strlen username + strlen passno"

definition build_salt ::
  "byte list \<Rightarrow> byte list \<Rightarrow> byte list \<Rightarrow> byte list \<Rightarrow> byte list option" where
  "build_salt block domain username passno =
     Option.bind (memcpy block 0 (cstring domain @ [0]) (strlen domain + 1)) (\<lambda>s1.
     Option.bind (memcpy s1 (strlen s1) (cstring username @ [0]) (strlen username + 1)) (\<lambda>s2.
     Option.bind (memcpy s2 (strlen s2) (cstring passno @ [0]) (strlen passno + 1)) (\<lambda>s3.
     Some (take (salt_len domain username passno) s3))))"

text \<open>
  \<open>crypto_scrypt\<close> belongs to libscrypt-kdf and the cost parameters \<open>MP_N\<close>, \<open>MP_r\<close>,
  \<open>MP_p\<close> to \<open>padre.h\<close>; both are parameters of the model. The primitive maps password,
  salt, cost parameters and requested length to the derived bytes, or fails.
\<close>

record scrypt_params =
  MP_N :: nat
  MP_r :: nat
  MP_p :: nat

type_synonym kdf = "byte list \<Rightarrow> byte list \<Rightarrow> nat \<Rightarrow> nat \<Rightarrow> nat \<Rightarrow> nat \<Rightarrow> byte list option"

datatype derive_error = Salt_alloc_failed | Scrypt_failed | Out_of_bounds

text \<open>
  \<open>derive_password\<close> returns -1 when the salt cannot be allocated and otherwise what
  scrypt returned; on success the first \<open>buf_len\<close> bytes of \<open>buf\<close> hold the derived
  bytes. \<open>salt_block\<close> is the result of \<open>malloc(salt_len + 1)\<close>: \<open>None\<close> for a null
  pointer. \<open>master_password\<close> is the list of its \<open>master_password_len\<close> bytes. A
  primitive that answers with another number of bytes than \<open>buf_len\<close>, and a buffer of
  fewer than \<open>buf_len\<close> bytes, are outside the contract of \<open>crypto_scrypt\<close>
  (\<open>Out_of_bounds\<close>).
\<close>

definition derive_password ::
  "kdf \<Rightarrow> scrypt_params \<Rightarrow> byte list option \<Rightarrow> byte list \<Rightarrow>
   byte list \<Rightarrow> byte list \<Rightarrow> byte list \<Rightarrow> nat \<Rightarrow> byte list \<Rightarrow> derive_error + byte list" where
  "derive_password crypto_scrypt mp salt_block master_password domain username passno buf_len buf =
     (case salt_block of
        None \<Rightarrow> Inl Salt_alloc_failed
      | Some block \<Rightarrow>
          (case build_salt block domain username passno of
             None \<Rightarrow> Inl Out_of_bounds
           | Some salt \<Rightarrow>
               (case crypto_scrypt master_password salt (MP_N mp) (MP_r mp) (MP_p mp) buf_len of
                  None \<Rightarrow> Inl Scrypt_failed
                | Some out \<Rightarrow>
                    if length out = buf_len \<and> buf_len \<le> length buf
                    then Inr (out @ drop buf_len buf)
                    else Inl Out_of_bounds)))"

section \<open>Mapping derived bytes onto the alphabet (\<open>to_chars\<close>)\<close>

text \<open>
  The loop overwrites \<open>len\<close> bytes in place: \<open>*str = chars[*bytes % (int)clen]\<close>. The
  byte is promoted to \<open>int\<close>, \<open>clen\<close> is converted from \<open>size_t\<close> to a 32-bit \<open>int\<close>, and
  \<open>%\<close> truncates towards zero (\<open>smod\<close>). A zero divisor and an access outside \<open>mem\<close> or
  \<open>chars\<close> are undefined behaviour and \<open>None\<close> here. \<open>p\<close> is the offset of \<open>bytes\<close> in
  \<open>mem\<close>.
\<close>

fun to_chars_loop :: "nat \<Rightarrow> nat \<Rightarrow> byte list \<Rightarrow> byte list \<Rightarrow> nat \<Rightarrow> (nat \<times> byte list) option" where
  "to_chars_loop 0 p mem chars clen = Some (p, mem)"
| "to_chars_loop (Suc len) p mem chars clen =
     (let d = sint (word_of_nat clen :: 32 word) in
      if length mem \<le> p \<or> d = 0 then None
      else
        let i = nat (uint (mem ! p) smod d) in
        if length chars \<le> i then None
        else to_chars_loop len (Suc p) (mem[p := chars ! i]) chars clen)"

text \<open>
  After the loop the terminator is written at \<open>*bytes\<close>; the function returns that
  position (with the updated memory).
\<close>

definition to_chars :: "byte list \<Rightarrow> nat \<Rightarrow> byte list \<Rightarrow> nat \<Rightarrow> (nat \<times> byte list) option" where
  "to_chars mem len chars clen =
     (case to_chars_loop len 0 mem chars clen of
        None \<Rightarrow> None
      | Some (p, mem') \<Rightarrow> if p < length mem' then Some (p, mem'[p := 0]) else None)"

section \<open>Charset compiler (\<open>enumerate_charset\<close>)\<close>

text \<open>\<open>isspace\<close> of the C locale: space, and horizontal tab to carriage return.\<close>

definition isspace :: "byte \<Rightarrow> bool" where
  "isspace c = (c = 32 \<or> (9 \<le> c \<and> c \<le> 13))"

definition minus_sign :: byte where
  "minus_sign = of_char (CHR ''-'')"

text \<open>
  \<open>push_char\<close> writes into the array \<open>chars\<close> of \<open>enumerate_charset\<close>. Pointers into
  that array are offsets, \<open>None\<close> is the null pointer; the array content \<open>mem\<close> is passed
  along and returned with the new pointer.
\<close>

definition push_char :: "byte list \<Rightarrow> nat option \<Rightarrow> nat \<Rightarrow> byte \<Rightarrow> byte list \<times> nat option" where
  "push_char mem pbegin pend c =
     (case pbegin of
        None \<Rightarrow> (mem, None)
      | Some b \<Rightarrow> if b < pend then (mem[b := c], Some (b + 1)) else (mem, None))"

text \<open>
  The chain of \<open>strcmp\<close> tests that replaces a character class by its range expression.
  The last test repeats \<open>"*"\<close> and can never be reached; its string is given by its
  UTF-8 bytes.
\<close>

definition resolve_class :: "byte list \<Rightarrow> byte list" where
  "resolve_class spec =
     (if streq spec (bytes_of []) \<or> streq spec (bytes_of '':graph:'') \<or>
         streq spec (bytes_of ''*'') then bytes_of ''!-~''
      else if streq spec (bytes_of '':alnum:'') then bytes_of ''a-zA-Z0-9''
      else if streq spec (bytes_of '':alpha:'') then bytes_of ''a-zA-Z''
      else if streq spec (bytes_of '':digit:'') then bytes_of ''0-9''
      else if streq spec (bytes_of '':lower:'') then bytes_of ''a-z''
      else if streq spec (bytes_of '':punct:'') then bytes_of ''!-/:-@[-`{-~''
      else if streq spec (bytes_of '':upper:'') then bytes_of ''A-Z''
      else if streq spec (bytes_of '':word:'') then bytes_of ''A-Za-z0-9_''
      else if streq spec (bytes_of '':xdigit:'') then bytes_of ''A-Fa-f0-9''
      else if streq spec (bytes_of ''*'') then
        bytes_of ''!-~'' @
        [0xC3, 0xB6, 0xC3, 0xA4, 0xC3, 0xBC, 0xC2, 0xB5, 0xE2, 0x82, 0xAC, 0xC2, 0xA7, 0xC2, 0xB0]
      else spec)"

text \<open>
  The inner loop \<open>for (; l <= c; l++) result = push_char(result, end, l)\<close>. The
  comparison is signed and the increment wraps, so the loop need not end: it is a
  partial function, and \<open>None\<close> means that it runs forever. It returns the final \<open>l\<close>,
  the array and \<open>result\<close>.
\<close>

partial_function (option) range_loop ::
  "byte \<Rightarrow> byte \<Rightarrow> byte list \<Rightarrow> nat option \<Rightarrow> (byte \<times> byte list \<times> nat option) option" where
  "range_loop l c mem result =
     (if word_sle l c
      then range_loop (l + 1) c (fst (push_char mem result 95 l)) (snd (push_char mem result 95 l))
      else Some (l, mem, result))"

text \<open>
  The scanning loop \<open>while (*spec != '\0')\<close>. \<open>spec\<close> is the memory at the scan pointer,
  \<open>l\<close> the left side of a range, \<open>op\<close> whether a \<open>-\<close> was seen after it. On a whitespace
  character the source executes \<open>continue\<close> before \<open>++spec\<close>, so the next iteration sees
  the same state.
\<close>

partial_function (option) scan_spec ::
  "byte list \<Rightarrow> byte \<Rightarrow> bool \<Rightarrow> byte list \<Rightarrow> nat option \<Rightarrow>
   (byte \<times> bool \<times> byte list \<times> nat option) option" where
  "scan_spec spec l op mem result =
     (case spec of
        [] \<Rightarrow> Some (l, op, mem, result)
      | c # rest \<Rightarrow>
          if c = 0 then Some (l, op, mem, result)
          else if isspace c then scan_spec spec l op mem result
          else if l = 0 \<and> c = minus_sign then
            scan_spec rest l op (fst (push_char mem result 95 c)) (snd (push_char mem result 95 c))
          else if l = 0 \<and> c \<noteq> minus_sign then scan_spec rest c op mem result
          else if l \<noteq> 0 \<and> c = minus_sign then scan_spec rest l True mem result
          else if l \<noteq> 0 \<and> c \<noteq> minus_sign \<and> op then
            Option.bind (range_loop l c mem result)
              (\<lambda>r. scan_spec rest 0 False (fst (snd r)) (snd (snd r)))
          else
            scan_spec rest c op (fst (push_char mem result 95 l)) (snd (push_char mem result 95 l)))"

declare range_loop.simps [code]
declare scan_spec.simps [code]

text \<open>
  Lines 134 to 140: after the loop a pending left side is pushed, a pending \<open>-\<close> after
  it, and the terminator last.
\<close>

definition final_pushes :: "byte \<Rightarrow> bool \<Rightarrow> byte list \<Rightarrow> nat option \<Rightarrow> byte list \<times> nat option" where
  "final_pushes l op mem result =
     (let p1 = (if l \<noteq> 0 then push_char mem result 95 l else (mem, result));
          p2 = (if op then push_char (fst p1) (snd p1) 95 minus_sign else p1)
      in push_char (fst p2) (snd p2) 95 0)"

datatype charset_error = EINVAL | ENOMEM

text \<open>
  \<open>enumerate_charset\<close>. \<open>chars0\<close> is the content of the uninitialised array
  \<open>char chars[95]\<close> on entry, \<open>malloc_res\<close> what \<open>malloc(*rlen)\<close> returns (\<open>None\<close> for a null
  pointer) and \<open>spec\<close> the argument (\<open>None\<close> for a null pointer); the output locations
  \<open>res\<close> and \<open>rlen\<close> are the returned pair. The outer \<open>None\<close> means that the call does
  not return. The final \<open>memcpy\<close> copies \<open>*rlen + 1\<close> bytes into the block of \<open>*rlen\<close>
  bytes; the heap beyond the block is not part of this model, and the result is the
  copied string.
\<close>

definition enumerate_charset ::
  "byte list \<Rightarrow> byte list option \<Rightarrow> byte list option \<Rightarrow> (charset_error + byte list \<times> nat) option" where
  "enumerate_charset chars0 malloc_res spec =
     (case spec of
        None \<Rightarrow> Some (Inl EINVAL)
      | Some spec0 \<Rightarrow>
          Option.bind (scan_spec (resolve_class spec0) 0 False chars0 (Some 0))
            (\<lambda>(l, op, mem, result).
               let (chars, result) = final_pushes l op mem result
               in if result = None then Some (Inl EINVAL)
                  else if malloc_res = None then Some (Inl ENOMEM)
                  else Some (Inr (take (strlen chars) chars, strlen chars))))"

subsection \<open>The expansion of a range expression\<close>

text \<open>
  The expansion that section 4.1 of the specification describes, as a function of the
  range expression alone and with no bound on its length: a \<open>-\<close> with no pending left
  side is emitted; a character followed by \<open>-\<close> and another character expands to the
  ascending inclusive range; any other character is emitted; at the end a pending
  character and a pending \<open>-\<close> are emitted. The compiler is compared with it below.
\<close>

definition char_range :: "byte \<Rightarrow> byte \<Rightarrow> byte list" where
  "char_range l c = map word_of_nat [unat l..<Suc (unat c)]"

fun expand :: "byte \<Rightarrow> bool \<Rightarrow> byte list \<Rightarrow> byte list" where
  "expand l op [] = (if l \<noteq> 0 then [l] else []) @ (if op then [minus_sign] else [])"
| "expand l op (c # cs) =
     (if l = 0 then (if c = minus_sign then c # expand l op cs else expand c op cs)
      else if c = minus_sign then expand l True cs
      else if op then char_range l c @ expand 0 False cs
      else l # expand c op cs)"

definition expansion :: "byte list \<Rightarrow> byte list" where
  "expansion spec = expand 0 False spec"

text \<open>
  The bytes of a range expression that the comparison covers: 1 to 126 without the
  whitespace characters, that is the printable characters \<open>!\<close> to \<open>~\<close> and the control
  characters that \<open>isspace\<close> rejects.
\<close>

definition plain_byte :: "byte \<Rightarrow> bool" where
  "plain_byte b = (1 \<le> b \<and> b \<le> 126 \<and> \<not> isspace b)"

text \<open>A sequence of calls of \<open>push_char\<close> with \<open>end = chars + 95\<close>.\<close>

fun push_chars :: "byte list \<Rightarrow> nat option \<Rightarrow> byte list \<Rightarrow> byte list \<times> nat option" where
  "push_chars mem result [] = (mem, result)"
| "push_chars mem result (c # cs) =
     push_chars (fst (push_char mem result 95 c)) (snd (push_char mem result 95 c)) cs"

text \<open>
  Two contents of the array \<open>chars\<close> agree up to the pointer \<open>result\<close> when both have
  95 bytes and the same bytes below the pointer; \<open>scan_agree\<close> says that a run of the
  scanning loop can be repeated on every array content that agrees with its own.
\<close>

definition agree :: "nat option \<Rightarrow> byte list \<Rightarrow> byte list \<Rightarrow> bool" where
  "agree r m1 m2 =
     (length m1 = 95 \<and> length m2 = 95 \<and>
      (case r of None \<Rightarrow> True | Some k \<Rightarrow> take k m1 = take k m2))"

definition scan_agree ::
  "byte list \<Rightarrow> byte \<Rightarrow> bool \<Rightarrow> byte list \<Rightarrow> nat option \<Rightarrow>
   (byte \<times> bool \<times> byte list \<times> nat option) \<Rightarrow> bool" where
  "scan_agree spec l op m1 r y =
     (\<forall>m2. agree r m1 m2 \<longrightarrow>
        (\<exists>m2'. scan_spec spec l op m2 r = Some (fst y, fst (snd y), m2', snd (snd (snd y)))
               \<and> agree (snd (snd (snd y))) (fst (snd (snd y))) m2'))"

section \<open>Account database parser (\<open>parse_accounts\<close>)\<close>

text \<open>
  The fields of an account are pointers into the database buffer: offsets here, \<open>None\<close>
  for the null pointer. The text of a field is the C string at its offset in the
  buffer as the parser leaves it. The field \<open>length\<close> of the source is \<open>length_a\<close> and
  the field \<open>size\<close> of the list is \<open>size_l\<close>.
\<close>

record account =
  domain :: "nat option"
  username :: "nat option"
  iteration :: "nat option"
  characters :: "nat option"
  length_a :: nat

record account_list =
  accounts :: "account list"
  size_l :: nat
  capacity :: nat

definition field_at :: "byte list \<Rightarrow> nat option \<Rightarrow> byte list option" where
  "field_at m p = map_option (\<lambda>i. cstring (drop i m)) p"

text \<open>
  \<open>accounts\<close> holds the \<open>size\<close> entries of the array that are in use. The results of
  \<open>malloc\<close> and \<open>realloc\<close> are not checked by the source and always succeed here.
\<close>

definition new_account_list :: "nat \<Rightarrow> account_list" where
  "new_account_list initial_capacity =
     \<lparr>accounts = [], size_l = 0, capacity = initial_capacity\<rparr>"

definition free_account_list :: "account_list \<Rightarrow> account_list" where
  "free_account_list list = \<lparr>accounts = [], size_l = 0, capacity = 0\<rparr>"

definition push_account :: "account_list \<Rightarrow> account \<Rightarrow> account_list" where
  "push_account list account =
     \<lparr>accounts = accounts list @ [account],
      size_l = size_l list + 1,
      capacity = (if size_l list = capacity list then capacity list * 2 else capacity list)\<rparr>"

text \<open>
  \<open>atoi\<close> of the C library, as glibc defines it: \<open>strtol\<close> in base 10, which skips
  whitespace, reads a sign and the decimal digits that follow and saturates at the
  bounds of \<open>long\<close>, converted to a 32-bit \<open>int\<close>. The argument is the memory at the
  pointer; the scan stops at the first byte that is not a digit, so also at a NUL.
\<close>

definition isdigit :: "byte \<Rightarrow> bool" where
  "isdigit c = (48 \<le> c \<and> c \<le> 57)"

fun digits_value :: "nat \<Rightarrow> byte list \<Rightarrow> nat" where
  "digits_value acc [] = acc"
| "digits_value acc (c # cs) =
     (if isdigit c then digits_value (10 * acc + (unat c - 48)) cs else acc)"

definition strtol :: "byte list \<Rightarrow> int" where
  "strtol m =
     (case dropWhile isspace m of
        [] \<Rightarrow> 0
      | c # t \<Rightarrow>
          if c = minus_sign then max (- int (digits_value 0 t)) (- (2 ^ 63))
          else if c = of_char (CHR ''+'') then min (int (digits_value 0 t)) (2 ^ 63 - 1)
          else min (int (digits_value 0 (c # t))) (2 ^ 63 - 1))"

definition atoi :: "byte list \<Rightarrow> int" where
  "atoi m = sint (word_of_int (strtol m) :: 32 word)"



text \<open>
  The two messages written to \<open>stderr\<close>, each with the number it prints
  (\<open>list.size + 1\<close>).
\<close>

datatype diagnostic = Invalid_entry nat | Bad_length nat

text \<open>
  The state of the loop of \<open>parse_accounts\<close>: the buffer \<open>mem\<close> (with \<open>begin\<close> at offset
  0), the loop pointer \<open>str\<close>, the start \<open>cur\<close> of the current field, the account under
  construction, the list and what was written to \<open>stderr\<close>.
\<close>

record pstate =
  mem :: "byte list"
  str :: nat
  cur :: nat
  acct :: account
  lst :: account_list
  err :: "diagnostic list"

definition no_account :: account where
  "no_account = \<lparr>domain = None, username = None, iteration = None, characters = None, length_a = 0\<rparr>"

definition newline :: byte where
  "newline = 10"

definition comma :: byte where
  "comma = of_char (CHR '','')"

text \<open>
  One iteration of the loop, the \<open>switch (*str)\<close> and the \<open>++str\<close> that follows. \<open>Inl\<close> is
  the \<open>return\<close> from inside the loop, after \<open>free_account_list\<close>.
\<close>

definition parse_step :: "pstate \<Rightarrow> pstate + pstate" where
  "parse_step s =
     (let c = mem s ! str s; m0 = (mem s)[str s := 0]; a = acct s in
      if c = newline then
        let a' = a\<lparr>characters := Some (cur s)\<rparr> in
        if domain a' = None \<or> username a' = None
        then Inr (s\<lparr>mem := m0, err := err s @ [Invalid_entry (size_l (lst s) + 1)],
                     acct := no_account, cur := str s + 1, str := str s + 1\<rparr>)
        else Inr (s\<lparr>mem := m0, lst := push_account (lst s) a',
                     acct := no_account, cur := str s + 1, str := str s + 1\<rparr>)
      else if c = comma then
        if domain a = None then
          Inr (s\<lparr>mem := m0, acct := a\<lparr>domain := Some (cur s)\<rparr>, cur := str s + 1, str := str s + 1\<rparr>)
        else if username a = None then
          Inr (s\<lparr>mem := m0, acct := a\<lparr>username := Some (cur s)\<rparr>, cur := str s + 1, str := str s + 1\<rparr>)
        else if iteration a = None then
          Inr (s\<lparr>mem := m0, acct := a\<lparr>iteration := Some (cur s)\<rparr>, cur := str s + 1, str := str s + 1\<rparr>)
        else if length_a a = 0 then
          let tmp = atoi (drop (cur s) m0) in
          if tmp = 0 \<or> tmp < 0
          then Inl (s\<lparr>mem := m0, err := err s @ [Bad_length (size_l (lst s) + 1)],
                       lst := free_account_list (lst s)\<rparr>)
          else Inr (s\<lparr>mem := m0, acct := a\<lparr>length_a := nat (atoi (drop (cur s) m0))\<rparr>,
                       cur := str s + 1, str := str s + 1\<rparr>)
        else Inr (s\<lparr>str := str s + 1\<rparr>)
      else Inr (s\<lparr>str := str s + 1\<rparr>))"

text \<open>
  The loop \<open>for (char *str = begin; str != end; ++str)\<close> runs once for each of the
  \<open>end - begin\<close> bytes unless it returns; \<open>scan_buffer n\<close> runs \<open>n\<close> iterations.
\<close>

primrec scan_buffer :: "nat \<Rightarrow> pstate \<Rightarrow> pstate + pstate" where
  "scan_buffer 0 s = Inr s"
| "scan_buffer (Suc n) s =
     (case parse_step s of Inl r \<Rightarrow> Inl r | Inr s' \<Rightarrow> scan_buffer n s')"

text \<open>
  \<open>parse_accounts\<close> on the buffer \<open>buf\<close> (\<open>begin\<close> is offset 0 and \<open>end\<close> is
  \<open>length buf\<close>). \<open>AVERAGE_DATABASE_ENTRY_SIZE\<close> is a macro of \<open>padre.h\<close> and a parameter
  here. The result is the final state: its list is the returned \<open>account_list\<close>, its
  \<open>mem\<close> the buffer that the fields point into, its \<open>err\<close> the diagnostics.
\<close>

definition parse_accounts :: "nat \<Rightarrow> byte list \<Rightarrow> pstate" where
  "parse_accounts AVERAGE_DATABASE_ENTRY_SIZE buf =
     (let n = length buf;
          list = new_account_list
                   (if n < AVERAGE_DATABASE_ENTRY_SIZE then 1 else n div AVERAGE_DATABASE_ENTRY_SIZE);
          s0 = \<lparr>mem = buf, str = 0, cur = 0, acct = no_account, lst = list, err = []\<rparr>
      in case scan_buffer n s0 of
           Inl r \<Rightarrow> r
         | Inr s \<Rightarrow>
             if cur s < n
             then s\<lparr>lst := push_account (lst s) ((acct s)\<lparr>characters := Some (cur s)\<rparr>)\<rparr>
             else s)"

text \<open>The five fields of an account as texts and a number, read from the final buffer.\<close>

definition account_fields ::
  "byte list \<Rightarrow> account \<Rightarrow>
   byte list option \<times> byte list option \<times> byte list option \<times> byte list option \<times> nat" where
  "account_fields m a =
     (field_at m (domain a), field_at m (username a), field_at m (iteration a),
      field_at m (characters a), length_a a)"

definition parsed_accounts ::
  "pstate \<Rightarrow> (byte list option \<times> byte list option \<times> byte list option \<times> byte list option \<times> nat) list" where
  "parsed_accounts s = map (account_fields (mem s)) (accounts (lst s))"

section \<open>Properties of the alphabet mapper\<close>

lemma cint_small: "sint (word_of_nat n :: 32 word) = int n" if "n < 2 ^ 31"
  using that by (simp add: signed_of_nat signed_take_bit_int_eq_self_iff)

lemma smod_nonneg: "0 \<le> a \<Longrightarrow> 0 < b \<Longrightarrow> (a::int) smod b = a mod b"
  by (simp add: smod_int_alt_def sgn_if)

lemma to_chars_loop_map:
  assumes "chars \<noteq> []" "length chars < 2 ^ 31"
  shows "to_chars_loop (length xs) (length pre) (pre @ xs @ post) chars (length chars) =
         Some (length pre + length xs, pre @ map (\<lambda>b. chars ! (unat b mod length chars)) xs @ post)"
proof (induction xs arbitrary: pre)
  case Nil
  then show ?case by simp
next
  case (Cons x xs)
  have d: "sint (word_of_nat (length chars) :: 32 word) = int (length chars)"
    using assms(2) by (rule cint_small)
  have pos: "0 < int (length chars)" using assms(1) by simp
  have i: "nat (uint x smod int (length chars)) = unat x mod length chars"
    using pos by (simp add: smod_nonneg nat_mod_distrib)
  have lt: "unat x mod length chars < length chars" using assms(1) by simp
  have upd: "(pre @ x # xs @ post)[length pre := c] = (pre @ [c]) @ xs @ post" for c
    by (simp add: list_update_append)
  show ?case
    using Cons.IH [of "pre @ [chars ! (unat x mod length chars)]"] pos lt
    by (simp add: d i upd Let_def nth_append linorder_not_le del: list_update_append)
qed

lemma to_chars_eq:
  assumes "alphabet \<noteq> []" "length alphabet < 2 ^ 31"
  shows "to_chars (rawBytes @ t # rest) (length rawBytes) alphabet (length alphabet) =
           Some (length rawBytes,
                 map (\<lambda>b. alphabet ! (unat b mod length alphabet)) rawBytes @ 0 # rest)"
  using to_chars_loop_map [OF assms, of rawBytes "[]" "t # rest"]
  by (simp add: to_chars_def list_update_append)

text \<open>
  Claim C3. For every byte sequence \<open>rawBytes\<close> that lies in a buffer with room for the
  terminator, and every non-empty alphabet (of a length that fits \<open>int\<close>), \<open>to_chars\<close>
  returns the position after the \<open>len(rawBytes)\<close> mapped bytes; the text it leaves has
  the length of \<open>rawBytes\<close>, its i-th character is
  \<open>alphabet[rawBytes[i] mod len(alphabet)]\<close>, and every character is an element of the
  alphabet.
\<close>

theorem to_chars_maps_alphabet:
  assumes "alphabet \<noteq> []" "length alphabet < 2 ^ 31"
  shows "to_chars (rawBytes @ t # rest) (length rawBytes) alphabet (length alphabet) =
           Some (length rawBytes,
                 map (\<lambda>b. alphabet ! (unat b mod length alphabet)) rawBytes @ 0 # rest)
         \<and> length (map (\<lambda>b. alphabet ! (unat b mod length alphabet)) rawBytes) = length rawBytes
         \<and> (\<forall>i < length rawBytes.
               map (\<lambda>b. alphabet ! (unat b mod length alphabet)) rawBytes ! i =
               alphabet ! (unat (rawBytes ! i) mod length alphabet))
         \<and> set (map (\<lambda>b. alphabet ! (unat b mod length alphabet)) rawBytes) \<subseteq> set alphabet"
proof -
  have "unat b mod length alphabet < length alphabet" for b :: byte
    using assms(1) by simp
  then have "set (map (\<lambda>b. alphabet ! (unat b mod length alphabet)) rawBytes) \<subseteq> set alphabet"
    by auto
  then show ?thesis using to_chars_eq [OF assms, of rawBytes t rest] by simp
qed

theorem to_chars_maps_alphabet_witness:
  "to_chars ([0, 1, 5] @ 9 # [9]) 3 (bytes_of ''ab'') 2 = Some (3, bytes_of ''abb'' @ [0, 9])"
  using to_chars_maps_alphabet [of "bytes_of ''ab''" "[0, 1, 5]" 9 "[9]"]
  by (simp add: bytes_of_def numeral_2_eq_2 [symmetric] numeral_3_eq_3 [symmetric])

section \<open>Properties of the salt\<close>

lemma cstring_no_nul: "0 \<notin> set (cstring m)"
  unfolding cstring_def by (induction m) auto

lemma cstring_append_nul: "0 \<notin> set xs \<Longrightarrow> cstring (xs @ 0 # ys) = xs"
  unfolding cstring_def by (induction xs) auto

lemma strlen_append_nul: "0 \<notin> set xs \<Longrightarrow> strlen (xs @ 0 # ys) = length xs"
  by (simp add: strlen_def cstring_append_nul)

lemma cstring_idem: "cstring (cstring m) = cstring m"
  unfolding cstring_def by simp

lemma build_salt_eq:
  assumes len: "length block = salt_len dmn usr pno + 1"
  shows "build_salt block dmn usr pno =
           Some (cstring dmn @ cstring usr @ cstring pno)"
proof -
  define D where "D = cstring dmn"
  define U where "U = cstring usr"
  define P where "P = cstring pno"
  note D_U_P_def = D_def U_def P_def
  have nz: "0 \<notin> set D" "0 \<notin> set U" "0 \<notin> set P" "0 \<notin> set (D @ U)"
    by (simp_all add: D_U_P_def cstring_no_nul)
  have n: "length block = length D + length U + length P + 1"
    using len by (simp add: salt_len_def strlen_def D_U_P_def)
  have s1: "memcpy block 0 (D @ [0]) (length D + 1) = Some (D @ 0 # drop (length D + 1) block)"
    using n by (simp add: memcpy_def)
  have l1: "strlen (D @ 0 # drop (length D + 1) block) = length D"
    using nz by (simp add: strlen_append_nul)
  have s2: "memcpy (D @ 0 # drop (length D + 1) block) (length D) (U @ [0]) (length U + 1)
            = Some ((D @ U) @ 0 # drop (length D + length U + 1) block)"
    using n by (simp add: memcpy_def add.commute add.left_commute)
  have l2: "strlen ((D @ U) @ 0 # drop (length D + length U + 1) block) = length D + length U"
    using strlen_append_nul [OF nz(4)] by simp
  have s3: "memcpy ((D @ U) @ 0 # drop (length D + length U + 1) block) (length D + length U)
              (P @ [0]) (length P + 1) = Some (D @ U @ P @ [0])"
    using n by (simp add: memcpy_def)
  have "build_salt block dmn usr pno =
          Some (take (length D + length U + length P) (D @ U @ P @ [0]))"
    unfolding build_salt_def salt_len_def strlen_def D_U_P_def [symmetric]
    by (simp only: s1 l1 [unfolded strlen_def] s2 l2 [unfolded strlen_def] s3 Option.bind.simps)
  then show ?thesis by (simp add: D_U_P_def)
qed


text \<open>
  Claim C4, as amended. On the block of \<open>salt_len + 1\<close> bytes that \<open>malloc\<close> returned,
  whatever it contains, the salt is exactly the bytes of the domain, then of the
  username, then of the iteration, with no separator and no terminator, and its length
  is the sum of the three lengths. Swapping two fields changes the salt whenever the
  two fields differ and have the same length.
\<close>

theorem build_salt_concat:
  assumes "length block = salt_len dmn usr pno + 1"
  shows "build_salt block dmn usr pno =
           Some (cstring dmn @ cstring usr @ cstring pno)
         \<and> length (cstring dmn @ cstring usr @ cstring pno) =
             strlen dmn + strlen usr + strlen pno
         \<and> (strlen dmn = strlen usr \<and> cstring dmn \<noteq> cstring usr \<longrightarrow>
              build_salt block usr dmn pno \<noteq> build_salt block dmn usr pno)
         \<and> (strlen usr = strlen pno \<and> cstring usr \<noteq> cstring pno \<longrightarrow>
              build_salt block dmn pno usr \<noteq> build_salt block dmn usr pno)
         \<and> (strlen dmn = strlen pno \<and> cstring dmn \<noteq> cstring pno \<longrightarrow>
              build_salt block pno usr dmn \<noteq> build_salt block dmn usr pno)"
proof -
  have a: "build_salt block dmn usr pno =
           Some (cstring dmn @ cstring usr @ cstring pno)"
    using assms by (rule build_salt_eq)
  have b: "build_salt block usr dmn pno =
           Some (cstring usr @ cstring dmn @ cstring pno)"
    using assms by (intro build_salt_eq) (simp add: salt_len_def)
  have c: "build_salt block dmn pno usr =
           Some (cstring dmn @ cstring pno @ cstring usr)"
    using assms by (intro build_salt_eq) (simp add: salt_len_def)
  have d: "build_salt block pno usr dmn =
           Some (cstring pno @ cstring usr @ cstring dmn)"
    using assms by (intro build_salt_eq) (simp add: salt_len_def)
  show ?thesis
    unfolding a b c d by (auto simp: strlen_def)
qed

theorem build_salt_concat_witness:
  "build_salt [9, 9, 9, 9] (bytes_of ''a'') (bytes_of ''b'') (bytes_of ''c'') = Some (bytes_of ''abc'')
   \<and> build_salt [9, 9, 9, 9] (bytes_of ''b'') (bytes_of ''a'') (bytes_of ''c'') \<noteq> Some (bytes_of ''abc'')
   \<and> build_salt [9, 9, 9, 9] (bytes_of ''a'') (bytes_of ''c'') (bytes_of ''b'') \<noteq> Some (bytes_of ''abc'')
   \<and> build_salt [9, 9, 9, 9] (bytes_of ''c'') (bytes_of ''b'') (bytes_of ''a'') \<noteq> Some (bytes_of ''abc'')"
  using build_salt_concat [of "[9, 9, 9, 9]" "bytes_of ''a''" "bytes_of ''b''" "bytes_of ''c''"]
  by (auto simp add: bytes_of_def salt_len_def strlen_def cstring_def)

text \<open>
  The claim as stated, that swapping any two fields changes the result, fails for the
  distinct fields \<open>a\<close> and \<open>aa\<close>: both orders give the salt \<open>aaac\<close>.
\<close>

theorem build_salt_swap_counterexample:
  "bytes_of ''a'' \<noteq> bytes_of ''aa'' \<and>
   build_salt [9, 9, 9, 9, 9] (bytes_of ''aa'') (bytes_of ''a'') (bytes_of ''c'') =
   build_salt [9, 9, 9, 9, 9] (bytes_of ''a'') (bytes_of ''aa'') (bytes_of ''c'')"
  by (simp add: bytes_of_def build_salt_def memcpy_def salt_len_def strlen_def cstring_def)


section \<open>Properties of the charset compiler\<close>

subsection \<open>The compiler and the expansion\<close>

lemma push_chars_append:
  "push_chars m r (xs @ ys) = push_chars (fst (push_chars m r xs)) (snd (push_chars m r xs)) ys"
  by (induction xs arbitrary: m r) simp_all

lemma push_chars_None: "push_chars m None xs = (m, None)"
  by (induction xs) (simp_all add: push_char_def)

lemma push_chars_fits:
  "length m = 95 \<Longrightarrow> k + length xs \<le> 95 \<Longrightarrow>
   push_chars m (Some k) xs = (take k m @ xs @ drop (k + length xs) m, Some (k + length xs))"
proof (induction xs arbitrary: m k)
  case Nil
  then show ?case by simp
next
  case (Cons x xs)
  have k: "k < 95" "k < length m" using Cons.prems by simp_all
  have upd: "m[k := x] = take k m @ x # drop (Suc k) m"
    using k(2) by (simp add: upd_conv_take_nth_drop)
  have "push_chars (m[k := x]) (Some (Suc k)) xs =
        (take (Suc k) (m[k := x]) @ xs @ drop (Suc k + length xs) (m[k := x]), Some (Suc k + length xs))"
    using Cons.prems by (intro Cons.IH) simp_all
  also have "take (Suc k) (m[k := x]) = take k m @ [x]"
    using k(2) by (simp add: upd take_Suc_conv_app_nth)
  also have "drop (Suc k + length xs) (m[k := x]) = drop (Suc k + length xs) m"
    by simp
  finally show ?case using k by (simp add: push_char_def)
qed

lemma push_chars_overflow:
  "k \<le> 95 \<Longrightarrow> 95 < k + length xs \<Longrightarrow> snd (push_chars m (Some k) xs) = None"
proof (induction xs arbitrary: m k)
  case Nil
  then show ?case by (simp add: push_char_def)
next
  case (Cons x xs)
  show ?case
  proof (cases "k < 95")
    case True
    then show ?thesis using Cons.IH [of "Suc k" "m[k := x]"] Cons.prems
      by (simp add: push_char_def)
  next
    case False
    then show ?thesis by (simp add: push_char_def push_chars_None)
  qed
qed

lemma sint_small: "unat (x::byte) \<le> 127 \<Longrightarrow> sint x = int (unat x)"
proof -
  assume a: "unat x \<le> 127"
  have "uint x < 128" using a by (simp only: uint_nat)
  moreover have "- 128 \<le> uint x" by (rule order_trans [of _ 0]) simp_all
  ultimately have "signed_take_bit 7 (uint x) = uint x"
    by (simp add: signed_take_bit_int_eq_self_iff)
  then show ?thesis
    by (simp add: sint_uint)
qed

lemma sle_small: "unat (a::byte) \<le> 127 \<Longrightarrow> unat (b::byte) \<le> 127 \<Longrightarrow> word_sle a b = (unat a \<le> unat b)"
  by (simp only: word_sle_eq sint_small of_nat_le_iff)

lemma unat_succ: "unat (l::byte) \<le> 126 \<Longrightarrow> unat (l + 1) = Suc (unat l)"
  by (simp add: unat_word_ariths)

lemma range_loop_eq:
  "unat l \<le> 127 \<Longrightarrow> unat c \<le> 126 \<Longrightarrow>
   map_option snd (range_loop l c m r) = Some (push_chars m r (char_range l c))"
proof (induction "Suc (unat c) - unat l" arbitrary: l m r)
  case 0
  then have "\<not> word_sle l c" by (simp add: sle_small)
  moreover have "char_range l c = []" using 0 by (simp add: char_range_def)
  ultimately show ?case by (subst range_loop.simps) simp
next
  case (Suc n)
  then have le: "unat l \<le> unat c" by simp
  then have sle: "word_sle l c" using Suc.prems by (simp add: sle_small)
  have l1: "unat (l + 1) = Suc (unat l)" using le Suc.prems by (simp add: unat_succ)
  have "[unat l..<Suc (unat c)] = unat l # [Suc (unat l)..<Suc (unat c)]"
    using le by (simp add: upt_conv_Cons del: upt_Suc)
  then have cr: "char_range l c = l # char_range (l + 1) c"
    by (simp add: char_range_def l1 del: upt_Suc)
  have "map_option snd (range_loop (l + 1) c (fst (push_char m r 95 l)) (snd (push_char m r 95 l)))
        = Some (push_chars (fst (push_char m r 95 l)) (snd (push_char m r 95 l)) (char_range (l + 1) c))"
    using Suc.hyps(2) Suc.prems le by (intro Suc.hyps(1)) (simp_all add: l1)
  then show ?case
    by (subst range_loop.simps) (simp add: sle cr)
qed

lemma final_pushes_eq:
  "final_pushes l op m r = push_chars m r (expand l op [] @ [0])"
  by (simp add: final_pushes_def Let_def)

lemma plain_byteD:
  assumes "plain_byte b"
  shows "b \<noteq> 0" "\<not> isspace b" "unat b \<le> 126" "1 \<le> unat b"
proof -
  from assms have "1 \<le> b" "b \<le> 126" "\<not> isspace b" by (simp_all add: plain_byte_def)
  then show "\<not> isspace b" "unat b \<le> 126" "1 \<le> unat b"
    by (simp_all add: word_le_nat_alt)
  then show "b \<noteq> 0" by auto
qed

lemma scan_spec_expand:
  assumes "\<forall>b\<in>set spec. plain_byte b" "l = 0 \<or> plain_byte l"
  shows "map_option (\<lambda>(l, op, m, r). final_pushes l op m r) (scan_spec spec l op m r) =
           Some (push_chars m r (expand l op spec @ [0]))"
  using assms
proof (induction spec arbitrary: l op m r)
  case Nil
  show ?case by (subst scan_spec.simps) (simp add: final_pushes_eq)
next
  case (Cons c cs)
  have c: "plain_byte c" and cs: "\<forall>b\<in>set cs. plain_byte b" using Cons.prems(1) by simp_all
  note cD = plain_byteD [OF c]
  have IH: "(l' = 0 \<or> plain_byte l') \<Longrightarrow>
     map_option (\<lambda>(l, op, m, r). final_pushes l op m r) (scan_spec cs l' op' m' r') =
       Some (push_chars m' r' (expand l' op' cs @ [0]))"
    for l' op' m' r' using Cons.IH [OF cs] by blast
  consider (a) "l = 0" "c = minus_sign" | (b) "l = 0" "c \<noteq> minus_sign"
    | (c) "l \<noteq> 0" "c = minus_sign" | (d) "l \<noteq> 0" "c \<noteq> minus_sign" "op"
    | (e) "l \<noteq> 0" "c \<noteq> minus_sign" "\<not> op" by blast
  then show ?case
  proof cases
    case a
    then show ?thesis using cD IH [of l op "fst (push_char m r 95 c)" "snd (push_char m r 95 c)"]
      by (subst scan_spec.simps) simp
  next
    case b
    then show ?thesis using cD IH [of c op m r] c
      by (subst scan_spec.simps) simp
  next
    case c
    then show ?thesis using cD IH [of l True m r] Cons.prems(2)
      by (subst scan_spec.simps) simp
  next
    case d
    have l: "plain_byte l" using d Cons.prems(2) by simp
    have "map_option snd (range_loop l c m r) = Some (push_chars m r (char_range l c))"
      using plain_byteD(3) [OF l] cD(3) by (intro range_loop_eq) simp_all
    then obtain l' where rl: "range_loop l c m r = Some (l', push_chars m r (char_range l c))"
      by auto
    show ?thesis
      using d cD IH [of 0 False "fst (push_chars m r (char_range l c))" "snd (push_chars m r (char_range l c))"]
      by (subst scan_spec.simps) (simp add: rl push_chars_append)
  next
    case e
    then show ?thesis using cD IH [of c op "fst (push_char m r 95 l)" "snd (push_char m r 95 l)"] c
      by (subst scan_spec.simps) simp
  qed
qed

lemma char_range_nonzero:
  "1 \<le> unat l \<Longrightarrow> unat c \<le> 126 \<Longrightarrow> 0 \<notin> set (char_range l c)"
proof
  assume a: "1 \<le> unat l" "unat c \<le> 126" "0 \<in> set (char_range l c)"
  then obtain n where n: "unat l \<le> n" "n \<le> unat c" "(word_of_nat n :: byte) = 0"
    by (auto simp: char_range_def)
  have "unat (word_of_nat n :: byte) = n"
    using n(1,2) a(1,2) by (simp add: unsigned_of_nat take_bit_nat_eq_self)
  moreover have "unat (word_of_nat n :: byte) = 0" using n(3) by simp
  ultimately have "n = 0" by simp
  with n(1) a(1) show False by simp
qed

lemma minus_sign_plain: "plain_byte minus_sign"
  by (simp add: plain_byte_def minus_sign_def isspace_def)

lemma expand_nonzero:
  assumes "\<forall>b\<in>set spec. plain_byte b" "l = 0 \<or> plain_byte l"
  shows "0 \<notin> set (expand l op spec)"
  using assms
proof (induction spec arbitrary: l op)
  case Nil
  then show ?case using plain_byteD(1) [OF minus_sign_plain] by auto
next
  case (Cons c cs)
  have c: "plain_byte c" and cs: "\<forall>b\<in>set cs. plain_byte b" using Cons.prems(1) by simp_all
  note IH = Cons.IH [OF cs]
  have r: "0 \<notin> set (char_range l c)" if "l \<noteq> 0"
    using that Cons.prems(2) plain_byteD(4) [of l] plain_byteD(3) [OF c]
    by (intro char_range_nonzero) auto
  show ?case
    using IH [of l op] IH [of c op] IH [of l True] IH [of 0 False] c Cons.prems(2) r
      plain_byteD(1) [OF c]
    by auto
qed

lemma resolve_class_cases:
  "resolve_class spec \<in> insert spec (bytes_of ` {''!-~'', ''a-zA-Z0-9'', ''a-zA-Z'', ''0-9'', ''a-z'',
     ''!-/:-@[-`{-~'', ''A-Z'', ''A-Za-z0-9_'', ''A-Fa-f0-9''})"
  by (simp add: resolve_class_def)

lemma resolve_class_plain:
  assumes "\<forall>b\<in>set spec. plain_byte b"
  shows "\<forall>b\<in>set (resolve_class spec). plain_byte b"
proof -
  define S where "S = bytes_of ` {''!-~'', ''a-zA-Z0-9'', ''a-zA-Z'', ''0-9'', ''a-z'',
     ''!-/:-@[-`{-~'', ''A-Z'', ''A-Za-z0-9_'', ''A-Fa-f0-9''}"
  have k: "\<forall>x\<in>S. \<forall>b\<in>set x. plain_byte b"
    by (simp add: S_def bytes_of_def plain_byte_def isspace_def)
  have "resolve_class spec \<in> insert spec S"
    unfolding S_def by (rule resolve_class_cases)
  then have "resolve_class spec = spec \<or> resolve_class spec \<in> S" by simp
  then show ?thesis
  proof
    assume "resolve_class spec = spec"
    with assms show ?thesis by simp
  next
    assume "resolve_class spec \<in> S"
    with k show ?thesis by (rule bspec)
  qed
qed

lemma enumerate_charset_plain:
  assumes len: "length chars0 = 95" and plain: "\<forall>b\<in>set spec. plain_byte b"
  shows "enumerate_charset chars0 (Some blk) (Some spec) =
           Some (if length (expansion (resolve_class spec)) \<le> 94
                 then Inr (expansion (resolve_class spec), length (expansion (resolve_class spec)))
                 else Inl EINVAL)"
proof -
  define E where "E = expansion (resolve_class spec)"
  have rp: "\<forall>b\<in>set (resolve_class spec). plain_byte b"
    using plain by (rule resolve_class_plain)
  have nz: "0 \<notin> set E"
    unfolding E_def expansion_def using rp by (intro expand_nonzero) simp_all
  have sc: "map_option (\<lambda>(l, op, m, r). final_pushes l op m r)
              (scan_spec (resolve_class spec) 0 False chars0 (Some 0)) =
            Some (push_chars chars0 (Some 0) (E @ [0]))"
    unfolding E_def expansion_def using rp by (intro scan_spec_expand) simp_all
  then obtain s where s: "scan_spec (resolve_class spec) 0 False chars0 (Some 0) = Some s"
    and fp: "(case s of (l, op, m, r) \<Rightarrow> final_pushes l op m r) = push_chars chars0 (Some 0) (E @ [0])"
    by auto
  show ?thesis
  proof (cases "length E \<le> 94")
    case True
    have "push_chars chars0 (Some 0) (E @ [0]) =
            (take 0 chars0 @ (E @ [0]) @ drop (0 + length (E @ [0])) chars0, Some (0 + length (E @ [0])))"
      using len True by (intro push_chars_fits) simp_all
    then have p: "push_chars chars0 (Some 0) (E @ [0]) = (E @ 0 # drop (Suc (length E)) chars0, Some (Suc (length E)))"
      by simp
    have sl: "strlen (E @ 0 # drop (Suc (length E)) chars0) = length E"
      using nz by (rule strlen_append_nul)
    show ?thesis
      using True fp
      by (simp add: enumerate_charset_def s p sl E_def [symmetric] case_prod_beta)
  next
    case False
    then have "snd (push_chars chars0 (Some 0) (E @ [0])) = None"
      by (intro push_chars_overflow) simp_all
    then show ?thesis
      using False fp
      by (simp add: enumerate_charset_def s E_def [symmetric] case_prod_beta)
  qed
qed

text \<open>
  Claim C6, as amended. The array has 95 bytes and the terminator takes one of them:
  for a specification made of the bytes 1 to 126 other than whitespace,
  \<open>enumerate_charset\<close> returns, and it fails (with \<open>EINVAL\<close>) if and only if the expansion
  has more than 94 entries; when it succeeds the alphabet is the complete expansion.
\<close>

theorem enumerate_charset_capacity:
  assumes "length chars0 = 95" "\<forall>b\<in>set spec. plain_byte b"
  shows "enumerate_charset chars0 (Some blk) (Some spec) =
           Some (if length (expansion (resolve_class spec)) \<le> 94
                 then Inr (expansion (resolve_class spec), length (expansion (resolve_class spec)))
                 else Inl EINVAL)"
  using assms by (rule enumerate_charset_plain)

theorem enumerate_charset_capacity_witness:
  "enumerate_charset (replicate 95 7) (Some []) (Some (bytes_of ''a-c'')) =
     Some (Inr (bytes_of ''abc'', 3))"
  using enumerate_charset_capacity [of "replicate 95 7" "bytes_of ''a-c''" "[]"]
  by (simp add: bytes_of_def plain_byte_def isspace_def resolve_class_def streq_def cstring_def
        expansion_def minus_sign_def char_range_def)

text \<open>
  The claim as stated fails at an expansion of exactly 95 entries, which does not exceed
  95 and is rejected all the same: \<open>!-~a\<close> expands to the 94 characters \<open>!\<close> to \<open>~\<close> and
  \<open>a\<close>.
\<close>

theorem enumerate_charset_capacity_counterexample:
  "length (expansion (resolve_class (bytes_of ''!-~a''))) = 95 \<and>
   enumerate_charset (replicate 95 0) (Some []) (Some (bytes_of ''!-~a'')) = Some (Inl EINVAL)"
  by code_simp

subsection \<open>Whitespace and descending ranges\<close>

lemma scan_spec_no_space:
  assumes "scan_spec spec l op m r = Some y"
  shows "\<forall>c\<in>set (cstring spec). \<not> isspace c"
proof (rule scan_spec.raw_induct
    [where P = "\<lambda>spec l op m r y. \<forall>c\<in>set (cstring spec). \<not> isspace c", OF _ assms])
  fix f :: "byte list \<Rightarrow> byte \<Rightarrow> bool \<Rightarrow> byte list \<Rightarrow> nat option \<Rightarrow>
            (byte \<times> bool \<times> byte list \<times> nat option) option"
  fix spec l op m result y
  assume IH: "\<And>spec l op m result y. f spec l op m result = Some y \<Longrightarrow>
                \<forall>c\<in>set (cstring spec). \<not> isspace c"
  assume step: "(case spec of
        [] \<Rightarrow> Some (l, op, m, result)
      | c # rest \<Rightarrow>
          if c = 0 then Some (l, op, m, result)
          else if isspace c then f spec l op m result
          else if l = 0 \<and> c = minus_sign then
            f rest l op (fst (push_char m result 95 c)) (snd (push_char m result 95 c))
          else if l = 0 \<and> c \<noteq> minus_sign then f rest c op m result
          else if l \<noteq> 0 \<and> c = minus_sign then f rest l True m result
          else if l \<noteq> 0 \<and> c \<noteq> minus_sign \<and> op then
            Option.bind (range_loop l c m result)
              (\<lambda>r. f rest 0 False (fst (snd r)) (snd (snd r)))
          else
            f rest c op (fst (push_char m result 95 l)) (snd (push_char m result 95 l))) = Some y"
  show "\<forall>c\<in>set (cstring spec). \<not> isspace c"
  proof (cases spec)
    case Nil
    then show ?thesis by (simp add: cstring_def)
  next
    case (Cons c rest)
    show ?thesis
    proof (cases "c = 0")
      case True
      with Cons show ?thesis by (simp add: cstring_def)
    next
      case nz: False
      show ?thesis
      proof (cases "isspace c")
        case True
        with step Cons nz have "f spec l op m result = Some y" by simp
        then show ?thesis by (rule IH)
      next
        case False
        with step Cons nz obtain l' op' m' r' where "f rest l' op' m' r' = Some y"
          by (auto simp: bind_eq_Some_conv split: if_splits)
        from IH [OF this] have "\<forall>c\<in>set (cstring rest). \<not> isspace c" .
        with False nz Cons show ?thesis by (simp add: cstring_def)
      qed
    qed
  qed
qed

lemma enumerate_charset_whitespace:
  assumes "\<exists>c\<in>set (cstring (resolve_class spec)). isspace c"
  shows "enumerate_charset chars0 malloc_res (Some spec) = None"
proof -
  have "scan_spec (resolve_class spec) 0 False chars0 (Some 0) = None"
    using scan_spec_no_space [of "resolve_class spec" 0 False chars0 "Some 0"] assms
    by (cases "scan_spec (resolve_class spec) 0 False chars0 (Some 0)") auto
  then show ?thesis by (simp add: enumerate_charset_def)
qed

text \<open>
  Claim C8 at the specification \<open>a b\<close>: the scan reaches the space, \<open>continue\<close> skips the
  \<open>++spec\<close>, and the call never returns, whatever the array holds. The same happens for
  every specification whose range expression contains a whitespace character, as the
  lemma above shows.
\<close>

theorem enumerate_charset_whitespace_hangs:
  "enumerate_charset chars0 malloc_res (Some (bytes_of ''a b'')) = None"
  by (rule enumerate_charset_whitespace)
     (simp add: resolve_class_def streq_def cstring_def bytes_of_def isspace_def)

text \<open>
  Claim C10 at the specification \<open>b-a\<close>: the range loop pushes nothing, the compiler
  succeeds with an alphabet of length 0, and \<open>to_chars\<close> with \<open>clen = 0\<close> divides by zero.
\<close>

theorem enumerate_charset_empty_alphabet:
  "enumerate_charset (replicate 95 0) (Some []) (Some (bytes_of ''b-a'')) = Some (Inr ([], 0)) \<and>
   to_chars [7, 0] 1 [] 0 = None"
  by code_simp

subsection \<open>Independence of the initial content of the array\<close>

lemma take_Suc_update:
  "length m1 = length m2 \<Longrightarrow> take k m1 = take k m2 \<Longrightarrow> take (Suc k) (m1[k := c]) = take (Suc k) (m2[k := c])"
proof (cases "k < length m1")
  case True
  assume a: "length m1 = length m2" "take k m1 = take k m2"
  have "take (Suc k) (m1[k := c]) = take k m1 @ [c]"
    using True by (simp add: take_Suc_conv_app_nth)
  moreover have "take (Suc k) (m2[k := c]) = take k m2 @ [c]"
    using True a(1) by (simp add: take_Suc_conv_app_nth)
  ultimately show ?thesis using a(2) by simp
next
  case False
  assume a: "length m1 = length m2" "take k m1 = take k m2"
  then show ?thesis using False by simp
qed


lemma push_char_agree:
  assumes "agree r m1 m2"
  shows "snd (push_char m1 r e c) = snd (push_char m2 r e c)
         \<and> agree (snd (push_char m1 r e c)) (fst (push_char m1 r e c)) (fst (push_char m2 r e c))"
proof (cases r)
  case None
  then show ?thesis using assms by (simp add: push_char_def agree_def)
next
  case (Some k)
  with assms have a: "length m1 = length m2" "take k m1 = take k m2" and n: "length m1 = 95" "length m2 = 95"
    by (simp_all add: agree_def)
  show ?thesis
  proof (cases "k < e")
    case True
    then show ?thesis using Some n take_Suc_update [OF a, of c]
      by (simp add: push_char_def agree_def)
  next
    case False
    then show ?thesis using Some n by (simp add: push_char_def agree_def)
  qed
qed


lemma range_loop_agree:
  assumes "range_loop l c m1 r = Some y"
  shows "\<forall>m2. agree r m1 m2 \<longrightarrow>
           (\<exists>m2'. range_loop l c m2 r = Some (fst y, m2', snd (snd y)) \<and> agree (snd (snd y)) (fst (snd y)) m2')"
proof (rule range_loop.raw_induct
    [where P = "\<lambda>l c m1 r y. \<forall>m2. agree r m1 m2 \<longrightarrow>
           (\<exists>m2'. range_loop l c m2 r = Some (fst y, m2', snd (snd y)) \<and> agree (snd (snd y)) (fst (snd y)) m2')",
     OF _ assms])
  fix f :: "byte \<Rightarrow> byte \<Rightarrow> byte list \<Rightarrow> nat option \<Rightarrow> (byte \<times> byte list \<times> nat option) option"
  fix l c m1 r y
  assume IH: "\<And>l c m1 r y. f l c m1 r = Some y \<Longrightarrow> \<forall>m2. agree r m1 m2 \<longrightarrow>
           (\<exists>m2'. range_loop l c m2 r = Some (fst y, m2', snd (snd y)) \<and> agree (snd (snd y)) (fst (snd y)) m2')"
  assume step: "(if word_sle l c
      then f (l + 1) c (fst (push_char m1 r 95 l)) (snd (push_char m1 r 95 l))
      else Some (l, m1, r)) = Some y"
  show "\<forall>m2. agree r m1 m2 \<longrightarrow>
           (\<exists>m2'. range_loop l c m2 r = Some (fst y, m2', snd (snd y)) \<and> agree (snd (snd y)) (fst (snd y)) m2')"
  proof (intro allI impI)
    fix m2 assume a: "agree r m1 m2"
    note pa = push_char_agree [OF a, of 95 l]
    show "\<exists>m2'. range_loop l c m2 r = Some (fst y, m2', snd (snd y)) \<and> agree (snd (snd y)) (fst (snd y)) m2'"
    proof (cases "word_sle l c")
      case True
      with step have "f (l + 1) c (fst (push_char m1 r 95 l)) (snd (push_char m1 r 95 l)) = Some y" by simp
      from IH [OF this] pa
      obtain m2' where "range_loop (l + 1) c (fst (push_char m2 r 95 l)) (snd (push_char m1 r 95 l)) = Some (fst y, m2', snd (snd y))"
        "agree (snd (snd y)) (fst (snd y)) m2'" by blast
      then show ?thesis using True pa by (subst range_loop.simps) simp
    next
      case False
      with step have "y = (l, m1, r)" by simp
      then show ?thesis using False a by (subst range_loop.simps) simp
    qed
  qed
qed


lemma scan_spec_agree:
  assumes "scan_spec spec l op m1 r = Some y"
  shows "scan_agree spec l op m1 r y"
proof (rule scan_spec.raw_induct [where P = scan_agree, OF _ assms])
  fix f :: "byte list \<Rightarrow> byte \<Rightarrow> bool \<Rightarrow> byte list \<Rightarrow> nat option \<Rightarrow>
            (byte \<times> bool \<times> byte list \<times> nat option) option"
  fix spec l op m1 r y
  assume IH: "\<And>spec l op m1 r y. f spec l op m1 r = Some y \<Longrightarrow> scan_agree spec l op m1 r y"
  assume step: "(case spec of
        [] \<Rightarrow> Some (l, op, m1, r)
      | c # rest \<Rightarrow>
          if c = 0 then Some (l, op, m1, r)
          else if isspace c then f spec l op m1 r
          else if l = 0 \<and> c = minus_sign then
            f rest l op (fst (push_char m1 r 95 c)) (snd (push_char m1 r 95 c))
          else if l = 0 \<and> c \<noteq> minus_sign then f rest c op m1 r
          else if l \<noteq> 0 \<and> c = minus_sign then f rest l True m1 r
          else if l \<noteq> 0 \<and> c \<noteq> minus_sign \<and> op then
            Option.bind (range_loop l c m1 r)
              (\<lambda>r. f rest 0 False (fst (snd r)) (snd (snd r)))
          else
            f rest c op (fst (push_char m1 r 95 l)) (snd (push_char m1 r 95 l))) = Some y"
  show "scan_agree spec l op m1 r y"
    unfolding scan_agree_def
  proof (intro allI impI)
    fix m2 assume a: "agree r m1 m2"
    let ?goal = "\<exists>m2'. scan_spec spec l op m2 r = Some (fst y, fst (snd y), m2', snd (snd (snd y)))
               \<and> agree (snd (snd (snd y))) (fst (snd (snd y))) m2'"
    show ?goal
    proof (cases spec)
      case Nil
      with step have "y = (l, op, m1, r)" by simp
      then show ?thesis using Nil a by (subst scan_spec.simps) simp
    next
      case (Cons c rest)
      consider (z) "c = 0" | (w) "c \<noteq> 0" "isspace c"
        | (a) "c \<noteq> 0" "\<not> isspace c" "l = 0" "c = minus_sign"
        | (b) "c \<noteq> 0" "\<not> isspace c" "l = 0" "c \<noteq> minus_sign"
        | (c) "c \<noteq> 0" "\<not> isspace c" "l \<noteq> 0" "c = minus_sign"
        | (d) "c \<noteq> 0" "\<not> isspace c" "l \<noteq> 0" "c \<noteq> minus_sign" "op"
        | (e) "c \<noteq> 0" "\<not> isspace c" "l \<noteq> 0" "c \<noteq> minus_sign" "\<not> op" by blast
      then show ?thesis
      proof cases
        case z
        with step Cons have "y = (l, op, m1, r)" by simp
        then show ?thesis using Cons z a by (subst scan_spec.simps) simp
      next
        case w
        with step Cons have "f spec l op m1 r = Some y" by simp
        from IH [OF this] a show ?thesis by (simp add: scan_agree_def)
      next
        case a
        note pa = push_char_agree [OF \<open>agree r m1 m2\<close>, of 95 c]
        from a step Cons have "f rest l op (fst (push_char m1 r 95 c)) (snd (push_char m1 r 95 c)) = Some y"
          by simp
        from IH [OF this] pa obtain m2' where
          "scan_spec rest l op (fst (push_char m2 r 95 c)) (snd (push_char m1 r 95 c)) =
             Some (fst y, fst (snd y), m2', snd (snd (snd y)))"
          "agree (snd (snd (snd y))) (fst (snd (snd y))) m2'"
          unfolding scan_agree_def by blast
        then show ?thesis using a Cons pa by (subst scan_spec.simps) simp
      next
        case b
        from b step Cons have "f rest c op m1 r = Some y" by simp
        from IH [OF this] \<open>agree r m1 m2\<close> show ?thesis
          using b Cons unfolding scan_agree_def by (subst scan_spec.simps) simp
      next
        case c
        from c step Cons have "f rest l True m1 r = Some y" by simp
        from IH [OF this] \<open>agree r m1 m2\<close> show ?thesis
          using c Cons unfolding scan_agree_def by (subst scan_spec.simps) simp
      next
        case d
        from d step Cons obtain q where
          q: "range_loop l c m1 r = Some q" "f rest 0 False (fst (snd q)) (snd (snd q)) = Some y"
          by (auto simp: bind_eq_Some_conv)
        from range_loop_agree [OF q(1)] \<open>agree r m1 m2\<close> obtain q2 where
          q2: "range_loop l c m2 r = Some (fst q, q2, snd (snd q))" "agree (snd (snd q)) (fst (snd q)) q2"
          by blast
        from IH [OF q(2)] q2(2) obtain m2' where
          "scan_spec rest 0 False q2 (snd (snd q)) = Some (fst y, fst (snd y), m2', snd (snd (snd y)))"
          "agree (snd (snd (snd y))) (fst (snd (snd y))) m2'"
          unfolding scan_agree_def by blast
        then show ?thesis using d Cons q2(1) by (subst scan_spec.simps) simp
      next
        case e
        note pa = push_char_agree [OF \<open>agree r m1 m2\<close>, of 95 l]
        from e step Cons have "f rest c op (fst (push_char m1 r 95 l)) (snd (push_char m1 r 95 l)) = Some y"
          by simp
        from IH [OF this] pa obtain m2' where
          "scan_spec rest c op (fst (push_char m2 r 95 l)) (snd (push_char m1 r 95 l)) =
             Some (fst y, fst (snd y), m2', snd (snd (snd y)))"
          "agree (snd (snd (snd y))) (fst (snd (snd y))) m2'"
          unfolding scan_agree_def by blast
        then show ?thesis using e Cons pa by (subst scan_spec.simps) simp
      qed
    qed
  qed
qed


lemma final_pushes_agree:
  assumes "agree r m1 m2"
  shows "snd (final_pushes l op m1 r) = snd (final_pushes l op m2 r)
         \<and> agree (snd (final_pushes l op m1 r)) (fst (final_pushes l op m1 r)) (fst (final_pushes l op m2 r))"
proof -
  define p1 where "p1 m = (if l \<noteq> 0 then push_char m r 95 l else (m, r))" for m
  have 1: "snd (p1 m1) = snd (p1 m2) \<and> agree (snd (p1 m1)) (fst (p1 m1)) (fst (p1 m2))"
    using push_char_agree [OF assms, of 95 l] assms by (cases "l = 0") (auto simp: p1_def)
  define p2 where "p2 m = (if op then push_char (fst (p1 m)) (snd (p1 m)) 95 minus_sign else p1 m)" for m
  have 2: "snd (p2 m1) = snd (p2 m2) \<and> agree (snd (p2 m1)) (fst (p2 m1)) (fst (p2 m2))"
    using push_char_agree [of "snd (p1 m1)" "fst (p1 m1)" "fst (p1 m2)" 95 minus_sign] 1
    by (cases op) (auto simp: p2_def)
  have 3: "final_pushes l op m r = push_char (fst (p2 m)) (snd (p2 m)) 95 0" for m
    by (simp add: final_pushes_def p2_def p1_def Let_def)
  show ?thesis
    using push_char_agree [of "snd (p2 m1)" "fst (p2 m1)" "fst (p2 m2)" 95 0] 2
    by (auto simp: 3)
qed

lemma final_pushes_nul:
  assumes "final_pushes l op m r = (c, Some k)" "length c = 95"
  shows "0 \<in> set (take k c)"
proof -
  obtain m' r' where fp: "final_pushes l op m r = push_char m' r' 95 0"
    by (simp add: final_pushes_def Let_def)
  with assms(1) have "push_char m' r' 95 0 = (c, Some k)" by simp
  then obtain b where b: "r' = Some b" "b < 95" "c = m'[b := 0]" "k = Suc b"
    by (auto simp: push_char_def split: option.splits if_splits)
  with assms(2) have "b < length c" "c ! b = 0" by simp_all
  then have "take k c ! b = 0" "b < length (take k c)" using b(4) by simp_all
  then show ?thesis by (metis nth_mem)
qed

lemma cstring_take: "0 \<in> set (take k c) \<Longrightarrow> cstring c = cstring (take k c)"
proof -
  assume a: "0 \<in> set (take k c)"
  have "cstring (take k c @ drop k c) = cstring (take k c)"
    unfolding cstring_def using a by (intro takeWhile_append1) simp_all
  then show ?thesis by simp
qed

lemma take_strlen: "take (strlen c) c = cstring c"
  by (simp add: strlen_def cstring_def takeWhile_eq_take [symmetric])

lemma enumerate_charset_garbage_le:
  assumes "length chars1 = 95" "length chars2 = 95"
    and "enumerate_charset chars1 (Some blk1) spec = Some y"
  shows "enumerate_charset chars2 (Some blk2) spec = Some y"
proof (cases spec)
  case None
  with assms(3) show ?thesis by (simp add: enumerate_charset_def)
next
  case (Some spec0)
  have a0: "agree (Some 0) chars1 chars2" using assms(1,2) by (simp add: agree_def)
  from assms(3) Some obtain s where
    s: "scan_spec (resolve_class spec0) 0 False chars1 (Some 0) = Some s"
    by (auto simp: enumerate_charset_def bind_eq_Some_conv)
  obtain l op m1 r where s_eq: "s = (l, op, m1, r)" by (cases s) auto
  from scan_spec_agree [OF s] a0 obtain m2 where
    s2: "scan_spec (resolve_class spec0) 0 False chars2 (Some 0) = Some (l, op, m2, r)"
    and a1: "agree r m1 m2"
    unfolding scan_agree_def s_eq by auto
  obtain c1 k1 where f1: "final_pushes l op m1 r = (c1, k1)" by (cases "final_pushes l op m1 r") auto
  obtain c2 k2 where f2: "final_pushes l op m2 r = (c2, k2)" by (cases "final_pushes l op m2 r") auto
  from final_pushes_agree [OF a1, of l op] have k: "k2 = k1" and a2: "agree k1 c1 c2"
    unfolding f1 f2 fst_conv snd_conv by auto
  show ?thesis
  proof (cases k1)
    case None
    with assms(3) Some s s_eq s2 f1 f2 k show ?thesis
      by (simp add: enumerate_charset_def)
  next
    case (Some k)
    from a2 Some have len: "length c1 = 95" "length c2 = 95" and tk: "take k c1 = take k c2"
      by (simp_all add: agree_def)
    have "cstring c1 = cstring (take k c1)"
      using final_pushes_nul [OF f1 [unfolded Some] len(1)] by (rule cstring_take)
    moreover have "cstring c2 = cstring (take k c2)"
      using final_pushes_nul [OF f2 [unfolded \<open>k2 = k1\<close> Some] len(2)] by (rule cstring_take)
    ultimately have "cstring c1 = cstring c2" using tk by simp
    then have "take (strlen c1) c1 = take (strlen c2) c2" "strlen c1 = strlen c2"
      by (simp_all add: take_strlen) (simp add: strlen_def)
    with assms(3) \<open>spec = Some spec0\<close> s s_eq s2 f1 f2 k Some show ?thesis
      by (simp add: enumerate_charset_def)
  qed
qed

lemma enumerate_charset_garbage:
  assumes "length chars1 = 95" "length chars2 = 95"
  shows "enumerate_charset chars1 (Some blk1) spec = enumerate_charset chars2 (Some blk2) spec"
proof (cases "enumerate_charset chars1 (Some blk1) spec")
  case (Some y)
  with enumerate_charset_garbage_le [OF assms Some, of blk2] show ?thesis by simp
next
  case None
  show ?thesis
  proof (cases "enumerate_charset chars2 (Some blk2) spec")
    case (Some y)
    with enumerate_charset_garbage_le [OF assms(2,1) Some, of blk1] None show ?thesis by simp
  next
    case None
    with \<open>enumerate_charset chars1 (Some blk1) spec = None\<close> show ?thesis by simp
  qed
qed

section \<open>Properties of the parser\<close>

subsection \<open>The loop\<close>























subsection \<open>A length that is not positive\<close>






lemma minus_not_digit: "\<not> isdigit minus_sign" "\<not> isdigit (of_char (CHR ''+''))"
  by (simp_all add: isdigit_def minus_sign_def)





subsection \<open>Lines that end early\<close>

text \<open>
  A database of one line without a username and four well-formed lines: the first
  line is reported with the number 1 and dropped, the other four are kept.
\<close>

lemma partial_load_example:
  "map (\<lambda>f. (fst f, fst (snd f)))
     (parsed_accounts (parse_accounts 32
       (bytes_of ''nouser'' @ [newline] @ bytes_of ''a,b,1,8,:alnum:'' @ [newline] @
        bytes_of ''c,d,1,9,:digit:'' @ [newline] @ bytes_of ''e,f,2,10,'' @ [newline] @
        bytes_of ''g,h,1,11,a-f'' @ [newline]))) =
     [(Some (bytes_of ''a''), Some (bytes_of ''b'')), (Some (bytes_of ''c''), Some (bytes_of ''d'')),
      (Some (bytes_of ''e''), Some (bytes_of ''f'')), (Some (bytes_of ''g''), Some (bytes_of ''h''))]
   \<and> err (parse_accounts 32
       (bytes_of ''nouser'' @ [newline] @ bytes_of ''a,b,1,8,:alnum:'' @ [newline] @
        bytes_of ''c,d,1,9,:digit:'' @ [newline] @ bytes_of ''e,f,2,10,'' @ [newline] @
        bytes_of ''g,h,1,11,a-f'' @ [newline])) = [Invalid_entry 1]"
  by code_simp

text \<open>
  Claim C7 at the database of the two lines \<open>x\<close> and \<open>y\<close>, neither of which has a
  domain: both are dropped and the parse goes on, but the number printed is
  \<open>list.size + 1\<close>, so the diagnostic for line 2 names line 1.
\<close>

theorem parse_accounts_line_number:
  "err (parse_accounts 32 (bytes_of ''x'' @ [newline] @ bytes_of ''y'' @ [newline])) =
     [Invalid_entry 1, Invalid_entry 1] \<and>
   accounts (lst (parse_accounts 32 (bytes_of ''x'' @ [newline] @ bytes_of ''y'' @ [newline]))) = []"
  by code_simp

text \<open>
  Claim C9 at the database line \<open>a,b,1\<close>, which ends before a length was read: its
  account is accepted with length 0 and no iteration. At the database \<open>x\<close> with no
  final newline the last account is accepted with no domain and no username.
\<close>

theorem parse_accounts_zero_length:
  "parsed_accounts (parse_accounts 32 (bytes_of ''a,b,1'' @ [newline])) =
     [(Some (bytes_of ''a''), Some (bytes_of ''b''), None, Some (bytes_of ''1''), 0)] \<and>
   parsed_accounts (parse_accounts 32 (bytes_of ''x'')) =
     [(None, None, None, Some (bytes_of ''x''), 0)]"
  by code_simp

section \<open>Properties of the derivation\<close>

lemma to_chars_loop_tail:
  "p + n \<le> length a \<Longrightarrow>
   \<exists>res. (\<forall>a'. res = Some a' \<longrightarrow> length a' = length a) \<and>
         (\<forall>t. to_chars_loop n p (a @ t) chars clen = map_option (\<lambda>a'. (p + n, a' @ t)) res)"
proof (induction n arbitrary: p a)
  case 0
  show ?case by (rule exI [of _ "Some a"]) simp
next
  case (Suc n)
  then have p: "p < length a" by simp
  define d where "d = sint (word_of_nat clen :: 32 word)"
  define i where "i = nat (uint (a ! p) smod d)"
  show ?case
  proof (cases "d = 0 \<or> length chars \<le> i")
    case True
    then have "\<forall>t. to_chars_loop (Suc n) p (a @ t) chars clen = None"
      using p by (auto simp: Let_def d_def i_def nth_append)
    then show ?thesis by (intro exI [of _ None]) simp
  next
    case False
    from Suc.IH [of "Suc p" "a[p := chars ! i]"] Suc.prems obtain res where
      res: "\<forall>a'. res = Some a' \<longrightarrow> length a' = length a"
        "\<forall>t. to_chars_loop n (Suc p) (a[p := chars ! i] @ t) chars clen =
             map_option (\<lambda>a'. (Suc p + n, a' @ t)) res"
      by auto
    have "to_chars_loop (Suc n) p (a @ t) chars clen =
          to_chars_loop n (Suc p) (a[p := chars ! i] @ t) chars clen" for t
      using False p by (simp add: Let_def d_def i_def nth_append list_update_append)
    with res show ?thesis by (intro exI [of _ res]) simp
  qed
qed

lemma to_chars_tail:
  assumes "length t1 = length t2"
  shows "map_option (\<lambda>(p, m). take p m) (to_chars (out @ t1) (length out) chars clen) =
         map_option (\<lambda>(p, m). take p m) (to_chars (out @ t2) (length out) chars clen)"
proof -
  from to_chars_loop_tail [of 0 "length out" out chars clen] obtain res where
    res: "\<forall>a'. res = Some a' \<longrightarrow> length a' = length out"
      "\<forall>t. to_chars_loop (length out) 0 (out @ t) chars clen =
           map_option (\<lambda>a'. (length out, a' @ t)) res"
    by auto
  have "map_option (\<lambda>(p, m). take p m) (to_chars (out @ t) (length out) chars clen) =
        (if t = [] then None else res)" for t
  proof (cases res)
    case None
    then show ?thesis using res(2) by (simp add: to_chars_def)
  next
    case (Some a')
    then have "length a' = length out" using res(1) by simp
    then show ?thesis using res(2) Some by (simp add: to_chars_def list_update_append)
  qed
  then show ?thesis using assms by auto
qed

lemma derive_password_eq:
  assumes "length salt_block = salt_len dmn usr pno + 1"
  shows "derive_password crypto_scrypt mp (Some salt_block) master dmn usr pno n buf =
           (case crypto_scrypt master (cstring dmn @ cstring usr @ cstring pno)
                   (MP_N mp) (MP_r mp) (MP_p mp) n of
              None \<Rightarrow> Inl Scrypt_failed
            | Some out \<Rightarrow>
                if length out = n \<and> n \<le> length buf then Inr (out @ drop n buf)
                else Inl Out_of_bounds)"
  by (simp add: derive_password_def build_salt_eq [OF assms])

text \<open>
  Claim C2. Two runs on the same master secret, domain, username, iteration, charset
  specification and length differ only in what the memory they are given holds
  before it is written: the array \<open>chars\<close>, the block of the salt, the output buffer
  and the block of the alphabet. The compiled alphabet is the same in both runs
  (also when the compiler fails or does not return), and so is the outcome of
  \<open>derive_password\<close> followed by \<open>to_chars\<close>: the same error or the same password
  bytes. The scrypt primitive is a function of its arguments.
\<close>

theorem derivation_deterministic:
  assumes "length chars1 = 95" "length chars2 = 95"
    and "length salt1 = salt_len dmn usr pno + 1" "length salt2 = salt_len dmn usr pno + 1"
    and "length buf1 = length buf2"
  shows "enumerate_charset chars1 (Some blk1) (Some charsetSpec) =
           enumerate_charset chars2 (Some blk2) (Some charsetSpec)
       \<and> map_sum id (\<lambda>b. map_option (\<lambda>(p, m). take p m) (to_chars b n alphabet clen))
           (derive_password crypto_scrypt mp (Some salt1) masterSecret dmn usr pno n buf1) =
         map_sum id (\<lambda>b. map_option (\<lambda>(p, m). take p m) (to_chars b n alphabet clen))
           (derive_password crypto_scrypt mp (Some salt2) masterSecret dmn usr pno n buf2)"
proof
  show "enumerate_charset chars1 (Some blk1) (Some charsetSpec) =
        enumerate_charset chars2 (Some blk2) (Some charsetSpec)"
    using assms(1,2) by (rule enumerate_charset_garbage)
next
  let ?k = "crypto_scrypt masterSecret (cstring dmn @ cstring usr @ cstring pno)
              (MP_N mp) (MP_r mp) (MP_p mp) n"
  show "map_sum id (\<lambda>b. map_option (\<lambda>(p, m). take p m) (to_chars b n alphabet clen))
           (derive_password crypto_scrypt mp (Some salt1) masterSecret dmn usr pno n buf1) =
         map_sum id (\<lambda>b. map_option (\<lambda>(p, m). take p m) (to_chars b n alphabet clen))
           (derive_password crypto_scrypt mp (Some salt2) masterSecret dmn usr pno n buf2)"
  proof (cases ?k)
    case None
    then show ?thesis by (simp add: derive_password_eq [OF assms(3)] derive_password_eq [OF assms(4)])
  next
    case (Some out)
    show ?thesis
    proof (cases "length out = n \<and> n \<le> length buf1")
      case True
      then have "length (drop n buf1) = length (drop n buf2)" using assms(5) by simp
      from to_chars_tail [OF this, of out alphabet clen] True assms(5) Some show ?thesis
        by (simp add: derive_password_eq [OF assms(3)] derive_password_eq [OF assms(4)])
    next
      case False
      then have "\<not> (length out = n \<and> n \<le> length buf2)" using assms(5) by simp
      with False Some show ?thesis
        by (simp only: derive_password_eq [OF assms(3)] derive_password_eq [OF assms(4)]
              option.case if_False map_sum.simps)
    qed
  qed
qed

theorem derivation_deterministic_witness:
  "enumerate_charset (replicate 95 1) (Some []) (Some (bytes_of ''a-c'')) =
     enumerate_charset (replicate 95 2) (Some [0]) (Some (bytes_of ''a-c''))
   \<and> map_sum id (\<lambda>b. map_option (\<lambda>(p, m). take p m) (to_chars b 2 (bytes_of ''xyz'') 3))
       (derive_password (\<lambda>pw salt N r p n. Some (take n (salt @ pw)))
          \<lparr>MP_N = 16384, MP_r = 8, MP_p = 1\<rparr> (Some [1, 1, 1, 1]) (bytes_of ''m'')
          (bytes_of ''a'') (bytes_of ''b'') (bytes_of ''c'') 2 [7, 7, 7]) =
     map_sum id (\<lambda>b. map_option (\<lambda>(p, m). take p m) (to_chars b 2 (bytes_of ''xyz'') 3))
       (derive_password (\<lambda>pw salt N r p n. Some (take n (salt @ pw)))
          \<lparr>MP_N = 16384, MP_r = 8, MP_p = 1\<rparr> (Some [2, 2, 2, 2]) (bytes_of ''m'')
          (bytes_of ''a'') (bytes_of ''b'') (bytes_of ''c'') 2 [8, 8, 8])"
proof -
  have h1: "length (replicate 95 (1::byte)) = 95" by simp
  have h2: "length (replicate 95 (2::byte)) = 95" by simp
  have h3: "length [1, 1, 1, 1 :: byte] = salt_len (bytes_of ''a'') (bytes_of ''b'') (bytes_of ''c'') + 1"
    by (simp add: salt_len_def strlen_def cstring_def bytes_of_def)
  have h4: "length [2, 2, 2, 2 :: byte] = salt_len (bytes_of ''a'') (bytes_of ''b'') (bytes_of ''c'') + 1"
    by (simp add: salt_len_def strlen_def cstring_def bytes_of_def)
  have h5: "length [7, 7, 7 :: byte] = length [8, 8, 8 :: byte]" by simp
  show ?thesis by (rule derivation_deterministic [OF h1 h2 h3 h4 h5])
qed

section \<open>The example line\<close>

lemma alnum_compiles:
  assumes "length chars0 = 95"
  shows "enumerate_charset chars0 (Some blk) (Some (bytes_of '':alnum:'')) =
     Some (Inr (bytes_of ''abcdefghijklmnopqrstuvwxyzABCDEFGHIJKLMNOPQRSTUVWXYZ0123456789'', 62))"
proof -
  have p: "\<forall>b\<in>set (bytes_of '':alnum:''). plain_byte b"
    by (simp add: bytes_of_def plain_byte_def isspace_def)
  have r: "resolve_class (bytes_of '':alnum:'') = bytes_of ''a-zA-Z0-9''"
    by (simp add: resolve_class_def streq_def cstring_def bytes_of_def)
  have e: "expansion (bytes_of ''a-zA-Z0-9'') =
           bytes_of ''abcdefghijklmnopqrstuvwxyzABCDEFGHIJKLMNOPQRSTUVWXYZ0123456789''"
    by code_simp
  show ?thesis
    unfolding enumerate_charset_plain [OF assms p] r e by (simp add: bytes_of_def)
qed

text \<open>
  Claim C1, as amended. The parser reads the length between the third and the fourth
  comma and the charset specification after it, so the line is
  \<open>example.com,alice,1,12,:alnum:\<close>. With or without a final newline it yields the one
  account with domain
  \<open>example.com\<close>, username \<open>alice\<close>, iteration \<open>1\<close>, charset specification \<open>:alnum:\<close> and
  length 12; \<open>:alnum:\<close> compiles to the 62 letters and digits; and for any master secret
  the password is the 12 bytes that scrypt derives for the salt \<open>example.comalice1\<close>,
  each mapped to a letter or digit, whatever the memory held before.
\<close>

theorem example_line_password:
  assumes "length chars0 = 95" "length salt0 = 18" "12 < length buf"
    and "crypto_scrypt masterSecret (bytes_of ''example.comalice1'') (MP_N mp) (MP_r mp) (MP_p mp) 12
           = Some raw"
    and "length raw = 12"
    and "alnum = bytes_of ''abcdefghijklmnopqrstuvwxyzABCDEFGHIJKLMNOPQRSTUVWXYZ0123456789''"
  shows "parsed_accounts (parse_accounts avg (bytes_of ''example.com,alice,1,12,:alnum:'' @ [newline])) =
           [(Some (bytes_of ''example.com''), Some (bytes_of ''alice''), Some (bytes_of ''1''),
             Some (bytes_of '':alnum:''), 12)]
       \<and> parsed_accounts (parse_accounts avg (bytes_of ''example.com,alice,1,12,:alnum:'')) =
           [(Some (bytes_of ''example.com''), Some (bytes_of ''alice''), Some (bytes_of ''1''),
             Some (bytes_of '':alnum:''), 12)]
       \<and> enumerate_charset chars0 (Some blk) (Some (bytes_of '':alnum:'')) = Some (Inr (alnum, 62))
       \<and> derive_password crypto_scrypt mp (Some salt0) masterSecret
            (bytes_of ''example.com'') (bytes_of ''alice'') (bytes_of ''1'') 12 buf =
           Inr (raw @ drop 12 buf)
       \<and> to_chars (raw @ drop 12 buf) 12 alnum 62 =
           Some (12, map (\<lambda>b. alnum ! (unat b mod 62)) raw @ 0 # drop 13 buf)
       \<and> length (map (\<lambda>b. alnum ! (unat b mod 62)) raw) = 12
       \<and> set (map (\<lambda>b. alnum ! (unat b mod 62)) raw) \<subseteq> set alnum"
proof -
  have 1: "parsed_accounts (parse_accounts avg (bytes_of ''example.com,alice,1,12,:alnum:'' @ [newline])) =
           [(Some (bytes_of ''example.com''), Some (bytes_of ''alice''), Some (bytes_of ''1''),
             Some (bytes_of '':alnum:''), 12)]"
    by (simp add: parsed_accounts_def parse_accounts_def Let_def parse_step_def bytes_of_def
      newline_def comma_def no_account_def push_account_def new_account_list_def
      atoi_def strtol_def isspace_def isdigit_def minus_sign_def account_fields_def field_at_def cstring_def)
  have nonl: "parsed_accounts (parse_accounts avg (bytes_of ''example.com,alice,1,12,:alnum:'')) =
           [(Some (bytes_of ''example.com''), Some (bytes_of ''alice''), Some (bytes_of ''1''),
             Some (bytes_of '':alnum:''), 12)]"
    by (simp add: parsed_accounts_def parse_accounts_def Let_def parse_step_def bytes_of_def
      newline_def comma_def no_account_def push_account_def new_account_list_def
      atoi_def strtol_def isspace_def isdigit_def minus_sign_def account_fields_def field_at_def cstring_def)
  have 2: "enumerate_charset chars0 (Some blk) (Some (bytes_of '':alnum:'')) = Some (Inr (alnum, 62))"
    unfolding assms(6) using assms(1) by (rule alnum_compiles)
  have sl: "length salt0 = salt_len (bytes_of ''example.com'') (bytes_of ''alice'') (bytes_of ''1'') + 1"
    using assms(2) by (simp add: salt_len_def strlen_def cstring_def bytes_of_def)
  have cs: "cstring (bytes_of ''example.com'') @ cstring (bytes_of ''alice'') @ cstring (bytes_of ''1'')
            = bytes_of ''example.comalice1''"
    by (simp add: cstring_def bytes_of_def)
  have 3: "derive_password crypto_scrypt mp (Some salt0) masterSecret
            (bytes_of ''example.com'') (bytes_of ''alice'') (bytes_of ''1'') 12 buf =
           Inr (raw @ drop 12 buf)"
    unfolding derive_password_eq [OF sl] cs assms(4) using assms(3,5) by simp
  have la: "length alnum = 62" "alnum \<noteq> []" by (simp_all add: assms(6) bytes_of_def)
  have d: "drop 12 buf = buf ! 12 # drop 13 buf"
    using Cons_nth_drop_Suc [OF assms(3)] by simp
  have 4: "to_chars (raw @ drop 12 buf) 12 alnum 62 =
           Some (12, map (\<lambda>b. alnum ! (unat b mod 62)) raw @ 0 # drop 13 buf)"
    using to_chars_eq [of alnum raw "buf ! 12" "drop 13 buf"] la assms(5) by (simp add: d)
  have "unat b mod 62 < length alnum" for b :: byte using la by simp
  then have 5: "set (map (\<lambda>b. alnum ! (unat b mod 62)) raw) \<subseteq> set alnum" by auto
  show ?thesis using 1 nonl 2 3 4 5 assms(5) by simp
qed

theorem example_line_password_witness:
  "derive_password (\<lambda>pw salt N r p n. Some (replicate n 200)) \<lparr>MP_N = 16384, MP_r = 8, MP_p = 1\<rparr>
     (Some (replicate 18 0)) (bytes_of ''secret'')
     (bytes_of ''example.com'') (bytes_of ''alice'') (bytes_of ''1'') 12 (replicate 13 0) =
     Inr (replicate 12 200 @ drop 12 (replicate 13 0))
   \<and> to_chars (replicate 12 200 @ drop 12 (replicate 13 0)) 12
       (bytes_of ''abcdefghijklmnopqrstuvwxyzABCDEFGHIJKLMNOPQRSTUVWXYZ0123456789'') 62 =
     Some (12, bytes_of ''oooooooooooo'' @ [0])"
proof -
  have h1: "length (replicate 95 (0::byte)) = 95" by simp
  have h2: "length (replicate 18 (0::byte)) = 18" by simp
  have h3: "12 < length (replicate 13 (0::byte))" by simp
  have h4: "Some (replicate 12 (200::byte)) = Some (replicate 12 200)" by simp
  have h5: "length (replicate 12 (200::byte)) = 12" by simp
  have v: "map (\<lambda>b. bytes_of ''abcdefghijklmnopqrstuvwxyzABCDEFGHIJKLMNOPQRSTUVWXYZ0123456789'' !
                     (unat b mod 62)) (replicate 12 (200::byte)) = bytes_of ''oooooooooooo''"
    by code_simp
  from example_line_password
    [where crypto_scrypt = "\<lambda>pw salt N r p n. Some (replicate n 200)"
       and mp = "\<lparr>MP_N = 16384, MP_r = 8, MP_p = 1\<rparr>" and masterSecret = "bytes_of ''secret''"
       and avg = 32 and blk = "[]", OF h1 h2 h3 h4 h5 refl]
  show ?thesis unfolding v by simp
qed

text \<open>
  The claim as stated fails: on the line \<open>example.com,alice,1,:alnum:,12\<close>, with or
  without a final newline, the parser reads \<open>:alnum:\<close> as the length, reports it and
  returns the empty list.
\<close>

theorem example_line_counterexample:
  "accounts (lst (parse_accounts 32 (bytes_of ''example.com,alice,1,:alnum:,12''))) = [] \<and>
   err (parse_accounts 32 (bytes_of ''example.com,alice,1,:alnum:,12'')) = [Bad_length 1] \<and>
   accounts (lst (parse_accounts 32 (bytes_of ''example.com,alice,1,:alnum:,12'' @ [newline]))) = [] \<and>
   err (parse_accounts 32 (bytes_of ''example.com,alice,1,:alnum:,12'' @ [newline])) = [Bad_length 1]"
  by code_simp

end
